theory Spec2Isabelle
  imports Main "HOL-Library.Char_ord" "HOL-Library.List_Lexorder" "HOL-Library.Multiset"
begin

section \<open>Strings: \<open>str.lower\<close> and \<open>str.split\<close>\<close>

text \<open>
  A Python \<open>str\<close> is a sequence of code points. A \<^typ>\<open>char\<close> stands for a code point
  below 256 (ASCII and Latin-1), and \<^typ>\<open>string\<close> for a \<open>str\<close> over these code points.
  With \<open>HOL-Library.Char_ord\<close> and \<open>HOL-Library.List_Lexorder\<close> the order on
  \<^typ>\<open>string\<close> is the lexicographic order by code point, which is how Python compares
  two \<open>str\<close> values.

  \<open>str.lower\<close> maps \<open>A..Z\<close> (65..90) and the Latin-1 capitals (192..222 without the
  multiplication sign 215) to the code point 32 above; every other code point below 256
  is kept.
\<close>

definition lower_char :: "char \<Rightarrow> char" where
  "lower_char c =
     (let n = (of_char c :: nat)
      in if (65 \<le> n \<and> n \<le> 90) \<or> (192 \<le> n \<and> n \<le> 222 \<and> n \<noteq> 215)
         then char_of (n + 32) else c)"

definition str_lower :: "string \<Rightarrow> string" where
  "str_lower s = map lower_char s"

text \<open>
  \<open>str.split()\<close> without a separator splits at runs of whitespace and yields no empty
  token. Below 256 the whitespace code points of \<open>str.isspace\<close> are 9..13, 28..32, 133
  and 160.
\<close>

definition isspace :: "char \<Rightarrow> bool" where
  "isspace c =
     (let n = (of_char c :: nat)
      in (9 \<le> n \<and> n \<le> 13) \<or> (28 \<le> n \<and> n \<le> 32) \<or> n = 133 \<or> n = 160)"

text \<open>\<open>split_from tok cs\<close>: \<open>tok\<close> is the token read so far, \<open>cs\<close> the rest of the input.\<close>

fun split_from :: "string \<Rightarrow> string \<Rightarrow> string list" where
  "split_from tok [] = (if tok = [] then [] else [tok])"
| "split_from tok (c # cs) =
     (if isspace c
      then (if tok = [] then split_from [] cs else tok # split_from [] cs)
      else split_from (tok @ [c]) cs)"

definition str_split :: "string \<Rightarrow> string list" where
  "str_split s = split_from [] s"

text \<open>The tokenisation both \<open>addDocument\<close> and \<open>search\<close> use: \<open>s.lower().split()\<close>.\<close>

definition tokenize :: "string \<Rightarrow> string list" where
  "tokenize s = str_split (str_lower s)"


section \<open>Errors\<close>

text \<open>
  The exceptions the core can raise: \<open>ValueError\<close> for an unregistered dataset name (the
  spec's DatasetNotFound), \<open>KeyError\<close> from \<open>self.documents[doc_id]\<close>, \<open>IndexError\<close>
  from \<open>results[0]\<close>, \<open>NotImplementedError\<close> from the base \<open>SortStrategy\<close>.
\<close>

datatype error = DatasetNotFound | KeyError | IndexError | NotImplementedError


section \<open>Document\<close>

record Document =
  doc_id :: int
  content :: string
  meta_data :: "string \<rightharpoonup> string"

definition Document_init :: "int \<Rightarrow> string \<Rightarrow> (string \<rightharpoonup> string) \<Rightarrow> Document" where
  "Document_init i c metaData = \<lparr>doc_id = i, content = str_lower c, meta_data = metaData\<rparr>"

definition get_key_value :: "Document \<Rightarrow> string \<Rightarrow> string" where
  "get_key_value d key = (case meta_data d key of None \<Rightarrow> [] | Some v \<Rightarrow> v)"


section \<open>InvertedIndex\<close>

record InvertedIndex =
  index :: "string \<rightharpoonup> int set"

definition InvertedIndex_init :: InvertedIndex where
  "InvertedIndex_init = \<lparr>index = Map.empty\<rparr>"

text \<open>
  One round of the loop of \<open>addDocument\<close>: create the posting set when the word is new,
  then add the id to it. The second lookup cannot miss; its \<open>None\<close> branch is never taken.
\<close>

definition add_word :: "int \<Rightarrow> (string \<rightharpoonup> int set) \<Rightarrow> string \<Rightarrow> (string \<rightharpoonup> int set)" where
  "add_word i idx word =
     (let idx1 = (if idx word = None then idx(word \<mapsto> {}) else idx)
      in case idx1 word of
           None \<Rightarrow> idx1
         | Some s \<Rightarrow> idx1(word \<mapsto> insert i s))"

fun add_words :: "int \<Rightarrow> (string \<rightharpoonup> int set) \<Rightarrow> string list \<Rightarrow> (string \<rightharpoonup> int set)" where
  "add_words i idx [] = idx"
| "add_words i idx (word # words) = add_words i (add_word i idx word) words"

definition InvertedIndex_addDocument :: "InvertedIndex \<Rightarrow> int \<Rightarrow> string \<Rightarrow> InvertedIndex" where
  "InvertedIndex_addDocument ix i c = ix\<lparr>index := add_words i (index ix) (tokenize c)\<rparr>"

text \<open>\<open>self.index.get(word, set())\<close>\<close>

definition index_get :: "(string \<rightharpoonup> int set) \<Rightarrow> string \<Rightarrow> int set" where
  "index_get idx word = (case idx word of None \<Rightarrow> {} | Some s \<Rightarrow> s)"

fun intersect_rest :: "(string \<rightharpoonup> int set) \<Rightarrow> int set \<Rightarrow> string list \<Rightarrow> int set" where
  "intersect_rest idx result_set [] = result_set"
| "intersect_rest idx result_set (word # words) =
     intersect_rest idx (result_set \<inter> index_get idx word) words"

fun InvertedIndex_search :: "InvertedIndex \<Rightarrow> string list \<Rightarrow> int set" where
  "InvertedIndex_search ix [] = {}"
| "InvertedIndex_search ix (w # ws) = intersect_rest (index ix) (index_get (index ix) w) ws"


section \<open>Dataset\<close>

record Dataset =
  documents :: "int \<rightharpoonup> Document"
  inverted_index :: InvertedIndex

definition Dataset_init :: Dataset where
  "Dataset_init = \<lparr>documents = Map.empty, inverted_index = InvertedIndex_init\<rparr>"

definition Dataset_addDocument :: "Dataset \<Rightarrow> int \<Rightarrow> Document \<Rightarrow> Dataset" where
  "Dataset_addDocument ds i d =
     (let ds1 = ds\<lparr>documents := (documents ds)(i \<mapsto> d)\<rparr>
      in ds1\<lparr>inverted_index := InvertedIndex_addDocument (inverted_index ds1) i (content d)\<rparr>)"

definition gte_document_by_id :: "Dataset \<Rightarrow> int \<Rightarrow> error + Document" where
  "gte_document_by_id ds i = (case documents ds i of None \<Rightarrow> Inl KeyError | Some d \<Rightarrow> Inr d)"


section \<open>SortStrategy and SearchResult\<close>

record SearchResult =
  document :: Document

text \<open>
  The class \<open>SortStrategy\<close> and its subclass \<open>KeySortStrategy\<close>; \<open>sort\<close> of the base class
  raises \<open>NotImplementedError\<close>.
\<close>

datatype SortStrategy = SortStrategy | KeySortStrategy

text \<open>
  \<open>src/app.py\<close>: \<open>sorted(results, key=lambda x: x.document.get_key_value(inp_key))\<close>.
  Python's \<open>sorted\<close> is ascending and stable; a stable sort has one possible output, the
  one \<^const>\<open>sort_key\<close> computes.
\<close>

definition KeySortStrategy_sort :: "SearchResult list \<Rightarrow> string \<Rightarrow> SearchResult list" where
  "KeySortStrategy_sort results inp_key =
     sort_key (\<lambda>x. get_key_value (document x) inp_key) results"

fun SortStrategy_sort :: "SortStrategy \<Rightarrow> SearchResult list \<Rightarrow> string \<Rightarrow> error + SearchResult list" where
  "SortStrategy_sort SortStrategy results key = Inl NotImplementedError"
| "SortStrategy_sort KeySortStrategy results key = Inr (KeySortStrategy_sort results key)"

text \<open>
  \<open>src/main.py\<close>: the same method with \<open>print(results[0].document)\<close> before the sort;
  \<open>results[0]\<close> raises \<open>IndexError\<close> on an empty list.
\<close>

definition KeySortStrategy_sort_main :: "SearchResult list \<Rightarrow> string \<Rightarrow> error + SearchResult list" where
  "KeySortStrategy_sort_main results inp_key =
     (case results of
        [] \<Rightarrow> Inl IndexError
      | r # rs \<Rightarrow> Inr (sort_key (\<lambda>x. get_key_value (document x) inp_key) results))"


section \<open>SearchEngine\<close>

record SearchEngine =
  datasets :: "string \<rightharpoonup> Dataset"
  sort_strategy :: SortStrategy
  next_doc_id :: int

definition SearchEngine_init :: SearchEngine where
  "SearchEngine_init = \<lparr>datasets = Map.empty, sort_strategy = KeySortStrategy, next_doc_id = 1\<rparr>"

text \<open>\<open>DatasetFactory().createDataset()\<close> is \<open>Dataset()\<close>.\<close>

definition create_dataset :: "SearchEngine \<Rightarrow> string \<Rightarrow> SearchEngine" where
  "create_dataset e name =
     (if name \<notin> dom (datasets e) then e\<lparr>datasets := (datasets e)(name \<mapsto> Dataset_init)\<rparr> else e)"

text \<open>
  The operations that can raise return the outcome together with the engine as the call
  leaves it, so that a raise after a mutation would show in the second component.
\<close>

definition insert_document ::
  "SearchEngine \<Rightarrow> string \<Rightarrow> string \<Rightarrow> (string \<rightharpoonup> string) \<Rightarrow> (error + unit) \<times> SearchEngine" where
  "insert_document e dataset_name c metaData =
     (case datasets e dataset_name of
        Some ds \<Rightarrow>
          (let doc = Document_init (next_doc_id e) c metaData;
               e1 = e\<lparr>datasets := (datasets e)(dataset_name \<mapsto> Dataset_addDocument ds (next_doc_id e) doc)\<rparr>;
               e2 = e1\<lparr>next_doc_id := next_doc_id e1 + 1\<rparr>
           in (Inr (), e2))
      | None \<Rightarrow> (Inl DatasetNotFound, e))"

text \<open>
  The order in which Python iterates over a \<open>set\<close> is not fixed by the language; it is a
  parameter \<open>it\<close> of the model, which lists the elements of a set.
\<close>

type_synonym set_iter = "int set \<Rightarrow> int list"

definition valid_iter :: "set_iter \<Rightarrow> bool" where
  "valid_iter it \<longleftrightarrow> (\<forall>S. finite S \<longrightarrow> set (it S) = S \<and> distinct (it S))"

text \<open>\<open>[SearchResult(dataset.gte_document_by_id(doc_id)) for doc_id in matching_doc_ids]\<close>\<close>

fun materialize :: "Dataset \<Rightarrow> int list \<Rightarrow> error + SearchResult list" where
  "materialize ds [] = Inr []"
| "materialize ds (i # ids) =
     (case gte_document_by_id ds i of
        Inl err \<Rightarrow> Inl err
      | Inr d \<Rightarrow>
          (case materialize ds ids of
             Inl err \<Rightarrow> Inl err
           | Inr rs \<Rightarrow> Inr (\<lparr>document = d\<rparr> # rs)))"

text \<open>\<open>if order_by_key:\<close> holds for a string that is neither \<open>None\<close> nor empty.\<close>

definition truthy :: "string option \<Rightarrow> bool" where
  "truthy k = (case k of None \<Rightarrow> False | Some s \<Rightarrow> s \<noteq> [])"

text \<open>\<open>SearchEngine.search\<close> of \<open>src/app.py\<close>.\<close>

definition SearchEngine_search ::
  "set_iter \<Rightarrow> SearchEngine \<Rightarrow> string \<Rightarrow> string \<Rightarrow> string option
     \<Rightarrow> (error + SearchResult list) \<times> SearchEngine" where
  "SearchEngine_search it e dataset_name search_patterns order_by_key =
     (case datasets e dataset_name of
        None \<Rightarrow> (Inl DatasetNotFound, e)
      | Some dataset \<Rightarrow>
          (let search_words = tokenize search_patterns;
               matching_doc_ids = InvertedIndex_search (inverted_index dataset) search_words
           in case materialize dataset (it matching_doc_ids) of
                Inl err \<Rightarrow> (Inl err, e)
              | Inr results \<Rightarrow>
                  (if truthy order_by_key
                   then (SortStrategy_sort (sort_strategy e) results (the order_by_key), e)
                   else (Inr results, e))))"

text \<open>
  \<open>SearchEngine.search\<close> of \<open>src/main.py\<close>: the two lines that sort are commented out, so
  \<open>order_by_key\<close> is not read.
\<close>

definition SearchEngine_search_main ::
  "set_iter \<Rightarrow> SearchEngine \<Rightarrow> string \<Rightarrow> string \<Rightarrow> string option
     \<Rightarrow> (error + SearchResult list) \<times> SearchEngine" where
  "SearchEngine_search_main it e dataset_name search_pattens order_by_key =
     (case datasets e dataset_name of
        None \<Rightarrow> (Inl DatasetNotFound, e)
      | Some dataset \<Rightarrow>
          (let search_words = tokenize search_pattens;
               matching_doc_ids = InvertedIndex_search (inverted_index dataset) search_words
           in case materialize dataset (it matching_doc_ids) of
                Inl err \<Rightarrow> (Inl err, e)
              | Inr results \<Rightarrow> (Inr results, e)))"


section \<open>Sequences of operations\<close>

datatype op =
    CreateDataset string
  | InsertDocument string string "string \<rightharpoonup> string"
  | Search string string "string option"

fun step :: "set_iter \<Rightarrow> SearchEngine \<Rightarrow> op \<Rightarrow> SearchEngine" where
  "step it e (CreateDataset name) = create_dataset e name"
| "step it e (InsertDocument name c m) = snd (insert_document e name c m)"
| "step it e (Search name q k) = snd (SearchEngine_search it e name q k)"

fun run :: "set_iter \<Rightarrow> SearchEngine \<Rightarrow> op list \<Rightarrow> SearchEngine" where
  "run it e [] = e"
| "run it e (x # xs) = run it (step it e x) xs"

text \<open>
  How many \<open>insert_document\<close> calls of a sequence of operations return without raising.
\<close>

fun count_inserted :: "set_iter \<Rightarrow> SearchEngine \<Rightarrow> op list \<Rightarrow> nat" where
  "count_inserted it e [] = 0"
| "count_inserted it e (InsertDocument name c m # xs) =
     (case insert_document e name c m of
        (Inr u, e') \<Rightarrow> Suc (count_inserted it e' xs)
      | (Inl err, e') \<Rightarrow> count_inserted it e' xs)"
| "count_inserted it e (x # xs) = count_inserted it (step it e x) xs"

text \<open>\<open>self.datasets[name].documents.get(i)\<close>: the document a dataset holds under the key \<open>i\<close>.\<close>

definition stored_at :: "SearchEngine \<Rightarrow> string \<Rightarrow> int \<Rightarrow> Document option" where
  "stored_at e name i = (case datasets e name of None \<Rightarrow> None | Some ds \<Rightarrow> documents ds i)"

text \<open>
  The ids of an engine state: every document is stored under its own \<open>doc_id\<close>, which
  lies between 1 and the counter; every id from 1 up to the counter is the key of a
  document in some dataset; no id is a key in two datasets.
\<close>

definition ids_inv :: "SearchEngine \<Rightarrow> bool" where
  "ids_inv e \<longleftrightarrow>
     1 \<le> next_doc_id e \<and>
     (\<forall>name i d. stored_at e name i = Some d \<longrightarrow> doc_id d = i \<and> 1 \<le> i \<and> i < next_doc_id e) \<and>
     (\<forall>i. 1 \<le> i \<and> i < next_doc_id e \<longrightarrow> (\<exists>name. stored_at e name i \<noteq> None)) \<and>
     (\<forall>i name1 name2. stored_at e name1 i \<noteq> None \<and> stored_at e name2 i \<noteq> None \<longrightarrow> name1 = name2)"


section \<open>The dataset invariant\<close>

text \<open>
  The three parts of the invariant of a dataset: an id is in the posting set of a term
  exactly when the term is a token of the stored content of the document with that id;
  every posted id is a key of the document store; no stored posting set is empty.
\<close>

definition postings_match :: "Dataset \<Rightarrow> bool" where
  "postings_match ds \<longleftrightarrow>
     (\<forall>i t. i \<in> index_get (index (inverted_index ds)) t \<longleftrightarrow>
        (\<exists>d. documents ds i = Some d \<and> t \<in> set (str_split (content d))))"

definition postings_stored :: "Dataset \<Rightarrow> bool" where
  "postings_stored ds \<longleftrightarrow>
     (\<forall>t s. index (inverted_index ds) t = Some s \<longrightarrow> s \<subseteq> dom (documents ds))"

definition postings_nonempty :: "Dataset \<Rightarrow> bool" where
  "postings_nonempty ds \<longleftrightarrow> (\<forall>t. index (inverted_index ds) t \<noteq> Some {})"

definition dataset_inv :: "Dataset \<Rightarrow> bool" where
  "dataset_inv ds \<longleftrightarrow> postings_match ds \<and> postings_stored ds \<and> postings_nonempty ds"

text \<open>
  What else holds of every engine state the operations produce: the strategy stays the
  \<open>KeySortStrategy\<close>, every stored id is at least 1 and below the counter, and every
  document is stored under its own id with lowercased content.
\<close>

definition docs_ok :: "int \<Rightarrow> Dataset \<Rightarrow> bool" where
  "docs_ok n ds \<longleftrightarrow>
     (\<forall>i d. documents ds i = Some d \<longrightarrow>
        1 \<le> i \<and> i < n \<and> doc_id d = i \<and> str_lower (content d) = content d)"

definition engine_inv :: "SearchEngine \<Rightarrow> bool" where
  "engine_inv e \<longleftrightarrow>
     sort_strategy e = KeySortStrategy \<and> 1 \<le> next_doc_id e \<and>
     (\<forall>name ds. datasets e name = Some ds \<longrightarrow> dataset_inv ds \<and> docs_ok (next_doc_id e) ds)"


section \<open>Posting sets as objects in a store\<close>

text \<open>
  In Python a posting set is an object, and \<open>InvertedIndex.search\<close> updates a set in
  place with \<open>intersection_update\<close>. To see which object that is, the sets live in a
  store here: an address is a position in the list of all set objects, the index maps a
  term to the address of its posting set, and a new object is put at the end.
\<close>

type_synonym addr = nat
type_synonym set_store = "int set list"

text \<open>\<open>set()\<close>\<close>

definition new_set :: "set_store \<Rightarrow> addr \<times> set_store" where
  "new_set h = (length h, h @ [{}])"

text \<open>\<open>a.copy()\<close>\<close>

definition set_copy :: "set_store \<Rightarrow> addr \<Rightarrow> addr \<times> set_store" where
  "set_copy h a = (length h, h @ [h ! a])"

text \<open>\<open>r.intersection_update(a)\<close>\<close>

definition intersection_update :: "set_store \<Rightarrow> addr \<Rightarrow> addr \<Rightarrow> set_store" where
  "intersection_update h r a = h[r := h ! r \<inter> h ! a]"

text \<open>
  \<open>self.index.get(word, set())\<close>: the default \<open>set()\<close> is built before the lookup, whether
  or not the word is in the index.
\<close>

definition index_get_obj :: "(string \<rightharpoonup> addr) \<Rightarrow> set_store \<Rightarrow> string \<Rightarrow> addr \<times> set_store" where
  "index_get_obj idx h word =
     (let (d, h1) = new_set h
      in (case idx word of None \<Rightarrow> (d, h1) | Some a \<Rightarrow> (a, h1)))"

fun intersect_rest_obj :: "(string \<rightharpoonup> addr) \<Rightarrow> set_store \<Rightarrow> addr \<Rightarrow> string list \<Rightarrow> set_store" where
  "intersect_rest_obj idx h r [] = h"
| "intersect_rest_obj idx h r (word # words) =
     (let (a, h1) = index_get_obj idx h word
      in intersect_rest_obj idx (intersection_update h1 r a) r words)"

record InvertedIndex_obj =
  index_obj :: "string \<rightharpoonup> addr"

fun InvertedIndex_search_obj :: "InvertedIndex_obj \<Rightarrow> set_store \<Rightarrow> string list \<Rightarrow> addr \<times> set_store" where
  "InvertedIndex_search_obj ix h [] = new_set h"
| "InvertedIndex_search_obj ix h (w # ws) =
     (let (a, h1) = index_get_obj (index_obj ix) h w;
          (r, h2) = set_copy h1 a
      in (r, intersect_rest_obj (index_obj ix) h2 r ws))"

record Dataset_obj =
  documents_obj :: "int \<rightharpoonup> Document"
  inverted_index_obj :: InvertedIndex_obj

record SearchEngine_obj =
  datasets_obj :: "string \<rightharpoonup> Dataset_obj"
  sort_strategy_obj :: SortStrategy
  next_doc_id_obj :: int
  store :: set_store

fun materialize_obj :: "Dataset_obj \<Rightarrow> int list \<Rightarrow> error + SearchResult list" where
  "materialize_obj ds [] = Inr []"
| "materialize_obj ds (i # ids) =
     (case documents_obj ds i of
        None \<Rightarrow> Inl KeyError
      | Some d \<Rightarrow>
          (case materialize_obj ds ids of
             Inl err \<Rightarrow> Inl err
           | Inr rs \<Rightarrow> Inr (\<lparr>document = d\<rparr> # rs)))"

text \<open>\<open>SearchEngine.search\<close> of \<open>src/app.py\<close> over the store.\<close>

definition SearchEngine_search_obj ::
  "set_iter \<Rightarrow> SearchEngine_obj \<Rightarrow> string \<Rightarrow> string \<Rightarrow> string option
     \<Rightarrow> (error + SearchResult list) \<times> SearchEngine_obj" where
  "SearchEngine_search_obj it e dataset_name search_patterns order_by_key =
     (case datasets_obj e dataset_name of
        None \<Rightarrow> (Inl DatasetNotFound, e)
      | Some dataset \<Rightarrow>
          (let search_words = tokenize search_patterns;
               (r, h) = InvertedIndex_search_obj (inverted_index_obj dataset) (store e) search_words;
               e1 = e\<lparr>store := h\<rparr>
           in case materialize_obj dataset (it (h ! r)) of
                Inl err \<Rightarrow> (Inl err, e1)
              | Inr results \<Rightarrow>
                  (if truthy order_by_key
                   then (SortStrategy_sort (sort_strategy_obj e1) results (the order_by_key), e1)
                   else (Inr results, e1))))"

text \<open>
  The engine a store-level state stands for: every address is replaced by the set
  stored there. A reference of a running program points to a live object:
  \<open>refs_ok\<close> says that every address in an index is an address of the store.
\<close>

definition abs_index :: "set_store \<Rightarrow> InvertedIndex_obj \<Rightarrow> InvertedIndex" where
  "abs_index h ix = \<lparr>index = (\<lambda>w. map_option (\<lambda>a. h ! a) (index_obj ix w))\<rparr>"

definition abs_dataset :: "set_store \<Rightarrow> Dataset_obj \<Rightarrow> Dataset" where
  "abs_dataset h ds =
     \<lparr>documents = documents_obj ds, inverted_index = abs_index h (inverted_index_obj ds)\<rparr>"

definition abs_engine :: "SearchEngine_obj \<Rightarrow> SearchEngine" where
  "abs_engine e =
     \<lparr>datasets = (\<lambda>n. map_option (abs_dataset (store e)) (datasets_obj e n)),
      sort_strategy = sort_strategy_obj e,
      next_doc_id = next_doc_id_obj e\<rparr>"

definition refs_ok :: "SearchEngine_obj \<Rightarrow> bool" where
  "refs_ok e \<longleftrightarrow>
     (\<forall>n ds w a. datasets_obj e n = Some ds \<longrightarrow> index_obj (inverted_index_obj ds) w = Some a
        \<longrightarrow> a < length (store e))"


section \<open>A dataset of three documents\<close>

text \<open>The documents \<open>{1: "a b", 2: "b c", 3: "a c"}\<close>, added in this order.\<close>

definition example_dataset :: Dataset where
  "example_dataset =
     Dataset_addDocument
       (Dataset_addDocument
          (Dataset_addDocument Dataset_init 1 (Document_init 1 ''a b'' Map.empty))
          2 (Document_init 2 ''b c'' Map.empty))
       3 (Document_init 3 ''a c'' Map.empty)"

definition example_ops :: "op list" where
  "example_ops =
     [CreateDataset ''a'', CreateDataset ''b'',
      InsertDocument ''a'' ''Hello World'' Map.empty,
      InsertDocument ''missing'' ''lost'' Map.empty,
      InsertDocument ''b'' ''hello there'' Map.empty,
      Search ''a'' ''hello'' None,
      InsertDocument ''a'' ''world'' Map.empty]"


section \<open>Reading a result\<close>

text \<open>The ids of the documents of a result, and their values under a metadata key.\<close>

definition result_ids :: "(error + SearchResult list) \<Rightarrow> error + int list" where
  "result_ids r = map_sum id (map (\<lambda>x. doc_id (document x))) r"

definition result_keys :: "string \<Rightarrow> (error + SearchResult list) \<Rightarrow> error + string list" where
  "result_keys key r = map_sum id (map (\<lambda>x. get_key_value (document x) key)) r"

text \<open>
  The list of results before the sort: one \<open>SearchResult\<close> for each matching id, in the
  order in which the set of matching ids is iterated.
\<close>

definition pre_sort :: "set_iter \<Rightarrow> Dataset \<Rightarrow> string \<Rightarrow> SearchResult list" where
  "pre_sort it ds q =
     map (\<lambda>i. \<lparr>document = the (documents ds i)\<rparr>)
       (it (InvertedIndex_search (inverted_index ds) (tokenize q)))"

text \<open>The two documents of the \<open>__main__\<close> block of \<open>src/main.py\<close>, with different dates.\<close>

definition blogs_ops :: "op list" where
  "blogs_ops =
     [CreateDataset ''blogs'',
      InsertDocument ''blogs'' ''This is my first blog about design pattern''
        [''date'' \<mapsto> ''2024-08-20'', ''author'' \<mapsto> ''Alice''],
      InsertDocument ''blogs'' ''Design Pattern are important for software development''
        [''date'' \<mapsto> ''2023-01-01'', ''author'' \<mapsto> ''Bob'']]"


text \<open>One dataset with the document \<open>"Hello World"\<close>, which gets the id 1.\<close>

definition hello_ops :: "op list" where
  "hello_ops = [CreateDataset ''d'', InsertDocument ''d'' ''Hello World'' Map.empty]"


text \<open>
  A store-level engine with one dataset: documents 1 (\<open>"a b"\<close>) and 2 (\<open>"b"\<close>), the posting
  set of \<open>a\<close> at address 0 and that of \<open>b\<close> at address 1.
\<close>

definition example_engine_obj :: SearchEngine_obj where
  "example_engine_obj =
     \<lparr>datasets_obj =
        [''d'' \<mapsto>
          \<lparr>documents_obj =
             [1 \<mapsto> Document_init 1 ''a b'' Map.empty, 2 \<mapsto> Document_init 2 ''b'' Map.empty],
           inverted_index_obj = \<lparr>index_obj = [''a'' \<mapsto> 0, ''b'' \<mapsto> 1]\<rparr>\<rparr>],
      sort_strategy_obj = KeySortStrategy,
      next_doc_id_obj = 3,
      store = [{1}, {1, 2}]\<rparr>"


text \<open>
  Every document of the engine was built by an \<open>insert_document\<close> call of the history,
  for the dataset that holds it and with the id it is stored under.
\<close>

definition built_by :: "op list \<Rightarrow> SearchEngine \<Rightarrow> bool" where
  "built_by hist e \<longleftrightarrow>
     (\<forall>name i d. stored_at e name i = Some d \<longrightarrow>
        (\<exists>c m. InsertDocument name c m \<in> set hist \<and> d = Document_init i c m))"


section \<open>The inverted index: lookup and insertion\<close>

lemma intersect_rest_eq:
  "intersect_rest idx S ws = S \<inter> (\<Inter>w\<in>set ws. index_get idx w)"
  by (induction ws arbitrary: S) auto

lemma add_word_get:
  "index_get (add_word i idx w) t = (if t = w then insert i (index_get idx w) else index_get idx t)"
  by (auto simp: add_word_def index_get_def Let_def split: option.splits)

lemma add_words_get:
  "index_get (add_words i idx ws) t =
     (if t \<in> set ws then insert i (index_get idx t) else index_get idx t)"
  by (induction ws arbitrary: idx) (auto simp: add_word_get)


section \<open>Conjunctive lookup\<close>

text \<open>
  Claim C1. \<open>InvertedIndex.search\<close> returns the empty set for an empty list of terms and
  otherwise the intersection of the posting sets of all the terms, a term that is not in
  the index counting as the empty set. On the dataset \<open>{1: "a b", 2: "b c", 3: "a c"}\<close>
  the query \<open>"a b"\<close> gives \<open>{1}\<close>, \<open>"b"\<close> gives \<open>{1, 2}\<close>, \<open>"a c"\<close> gives \<open>{3}\<close> and the
  empty query gives the empty set.
\<close>

theorem InvertedIndex_search_is_intersection:
  "InvertedIndex_search ix terms =
     (if terms = [] then {} else (\<Inter>t\<in>set terms. index_get (index ix) t)) \<and>
   map (\<lambda>i. map_option content (documents example_dataset i)) [1, 2, 3] =
     [Some ''a b'', Some ''b c'', Some ''a c''] \<and>
   InvertedIndex_search (inverted_index example_dataset) (tokenize ''a b'') = {1} \<and>
   InvertedIndex_search (inverted_index example_dataset) (tokenize ''b'') = {1, 2} \<and>
   InvertedIndex_search (inverted_index example_dataset) (tokenize ''a c'') = {3} \<and>
   InvertedIndex_search (inverted_index example_dataset) (tokenize []) = {}"
proof -
  have general: "InvertedIndex_search ix terms =
     (if terms = [] then {} else (\<Inter>t\<in>set terms. index_get (index ix) t))"
    by (cases terms) (auto simp: intersect_rest_eq)
  have docs: "map (\<lambda>i. map_option content (documents example_dataset i)) [1, 2, 3] =
     [Some ''a b'', Some ''b c'', Some ''a c'']"
    by code_simp
  have q1: "InvertedIndex_search (inverted_index example_dataset) (tokenize ''a b'') = {1}"
    by code_simp
  have q2: "InvertedIndex_search (inverted_index example_dataset) (tokenize ''b'') = {1, 2}"
    by code_simp
  have q3: "InvertedIndex_search (inverted_index example_dataset) (tokenize ''a c'') = {3}"
    by code_simp
  have q4: "InvertedIndex_search (inverted_index example_dataset) (tokenize []) = {}"
    by code_simp
  from general docs q1 q2 q3 q4 show ?thesis by blast
qed

theorem InvertedIndex_search_is_intersection_witness:
  "InvertedIndex_search (inverted_index example_dataset) [''b'', ''c'', ''nowhere''] =
     index_get (index (inverted_index example_dataset)) ''b'' \<inter>
     index_get (index (inverted_index example_dataset)) ''c'' \<inter>
     index_get (index (inverted_index example_dataset)) ''nowhere''"
  using InvertedIndex_search_is_intersection
          [of "inverted_index example_dataset" "[''b'', ''c'', ''nowhere'']"]
  by (simp add: Int_assoc)


section \<open>Re-adding an id\<close>

text \<open>
  Claim C7. \<open>InvertedIndex.addDocument\<close> removes nothing: after \<open>addDocument(id, c1)\<close>
  and then \<open>addDocument(id, c2)\<close> the id is in the posting set of every token of \<open>c1\<close>
  and of every token of \<open>c2\<close>.
\<close>

theorem addDocument_keeps_stale_postings:
  "t \<in> set (tokenize c1) \<union> set (tokenize c2) \<Longrightarrow>
   i \<in> index_get (index (InvertedIndex_addDocument (InvertedIndex_addDocument ix i c1) i c2)) t"
  by (auto simp: InvertedIndex_addDocument_def add_words_get)

theorem addDocument_keeps_stale_postings_witness:
  "''old'' \<in> set (tokenize ''Old text'') \<union> set (tokenize ''new'') \<and>
   ''old'' \<notin> set (tokenize ''new'') \<and>
   7 \<in> index_get (index (InvertedIndex_addDocument
          (InvertedIndex_addDocument InvertedIndex_init 7 ''Old text'') 7 ''new'')) ''old''"
proof -
  have h: "''old'' \<in> set (tokenize ''Old text'') \<union> set (tokenize ''new'')"
    by code_simp
  have n: "''old'' \<notin> set (tokenize ''new'')"
    by code_simp
  from addDocument_keeps_stale_postings [OF h, of 7 InvertedIndex_init] h n
  show ?thesis by blast
qed


section \<open>Creating a dataset\<close>

text \<open>
  Claim C8. \<open>create_dataset\<close> for a name that is not registered adds one empty dataset
  under that name and changes nothing else; for a registered name it returns the engine
  as it was, so the dataset under that name keeps its documents and its index; calling
  it twice is the same as calling it once, and \<open>createDataset("x")\<close> twice on a new
  engine leaves exactly the one empty dataset \<open>"x"\<close>.
\<close>

theorem create_dataset_idempotent:
  "(name \<notin> dom (datasets e) \<longrightarrow>
      datasets (create_dataset e name) = (datasets e)(name \<mapsto> Dataset_init) \<and>
      sort_strategy (create_dataset e name) = sort_strategy e \<and>
      next_doc_id (create_dataset e name) = next_doc_id e) \<and>
   (name \<in> dom (datasets e) \<longrightarrow> create_dataset e name = e) \<and>
   create_dataset (create_dataset e name) name = create_dataset e name \<and>
   documents Dataset_init = Map.empty \<and> index (inverted_index Dataset_init) = Map.empty \<and>
   datasets (create_dataset (create_dataset SearchEngine_init ''x'') ''x'') =
     [''x'' \<mapsto> Dataset_init]"
  by (auto simp: create_dataset_def Dataset_init_def InvertedIndex_init_def
        SearchEngine_init_def)

theorem create_dataset_idempotent_witness:
  "''x'' \<notin> dom (datasets SearchEngine_init) \<and>
   datasets (create_dataset SearchEngine_init ''x'') = [''x'' \<mapsto> Dataset_init] \<and>
   ''x'' \<in> dom (datasets (create_dataset SearchEngine_init ''x'')) \<and>
   create_dataset (create_dataset SearchEngine_init ''x'') ''x'' =
     create_dataset SearchEngine_init ''x''"
proof -
  have fresh: "''x'' \<notin> dom (datasets SearchEngine_init)"
    by (simp add: SearchEngine_init_def)
  have empty: "datasets SearchEngine_init = Map.empty"
    by (simp add: SearchEngine_init_def)
  have there: "''x'' \<in> dom (datasets (create_dataset SearchEngine_init ''x''))"
    by (simp add: create_dataset_def SearchEngine_init_def)
  from create_dataset_idempotent [of "''x''" SearchEngine_init]
       create_dataset_idempotent [of "''x''" "create_dataset SearchEngine_init ''x''"]
       fresh empty there
  show ?thesis by simp
qed


section \<open>An unregistered dataset name\<close>

text \<open>
  Claim C3. For a dataset name that is not in the registry, \<open>insert_document\<close> and
  \<open>search\<close> both fail with the dataset-not-found \<open>ValueError\<close>, and the engine after the
  failing call is the engine before it: registry, document stores, indexes and
  \<open>next_doc_id\<close>.
\<close>

theorem unregistered_dataset_fails_unchanged:
  "datasets e name = None \<Longrightarrow>
   insert_document e name c m = (Inl DatasetNotFound, e) \<and>
   SearchEngine_search it e name q k = (Inl DatasetNotFound, e) \<and>
   SearchEngine_search_main it e name q k = (Inl DatasetNotFound, e)"
  by (simp add: insert_document_def SearchEngine_search_def SearchEngine_search_main_def)

theorem unregistered_dataset_fails_unchanged_witness:
  "datasets (create_dataset SearchEngine_init ''blogs'') ''news'' = None \<and>
   insert_document (create_dataset SearchEngine_init ''blogs'') ''news'' ''text'' Map.empty =
     (Inl DatasetNotFound, create_dataset SearchEngine_init ''blogs'') \<and>
   SearchEngine_search sorted_list_of_set (create_dataset SearchEngine_init ''blogs'')
       ''news'' ''text'' (Some ''date'') =
     (Inl DatasetNotFound, create_dataset SearchEngine_init ''blogs'')"
proof -
  have h: "datasets (create_dataset SearchEngine_init ''blogs'') ''news'' = None"
    by (simp add: create_dataset_def SearchEngine_init_def)
  from unregistered_dataset_fails_unchanged [OF h] h show ?thesis by blast
qed


section \<open>The sort of \<open>src/main.py\<close> on an empty list\<close>

text \<open>
  Claim C9. \<open>KeySortStrategy.sort\<close> of \<open>src/main.py\<close> raises \<open>IndexError\<close> on an empty
  list of results, whatever the key: it reads \<open>results[0]\<close> before it sorts.
\<close>

theorem KeySortStrategy_sort_main_empty_raises:
  "KeySortStrategy_sort_main [] key = Inl IndexError"
  by (simp add: KeySortStrategy_sort_main_def)


section \<open>Document ids\<close>

lemma snd_SearchEngine_search [simp]: "snd (SearchEngine_search it e name q k) = e"
  by (auto simp: SearchEngine_search_def Let_def split: option.splits sum.splits)

lemma next_doc_id_create_dataset [simp]: "next_doc_id (create_dataset e name) = next_doc_id e"
  by (simp add: create_dataset_def)

lemma insert_document_cases:
  "insert_document e name c m = (Inl DatasetNotFound, e) \<and> datasets e name = None \<or>
   (\<exists>e'. insert_document e name c m = (Inr (), e') \<and> next_doc_id e' = next_doc_id e + 1 \<and>
         datasets e name \<noteq> None)"
  by (auto simp: insert_document_def Let_def split: option.splits)


section \<open>The invariant of a dataset\<close>

lemma lower_char_idem: "lower_char (lower_char c) = lower_char c"
proof -
  have lt: "(of_char c :: nat) < 256" by simp
  show ?thesis
    using lt by (auto simp: lower_char_def Let_def)
qed

lemma str_lower_idem: "str_lower (str_lower s) = str_lower s"
  by (simp add: str_lower_def lower_char_idem)

lemma add_word_lookup:
  "add_word i idx w t = (if t = w then Some (insert i (index_get idx w)) else idx t)"
  by (auto simp: add_word_def index_get_def Let_def split: option.splits)

lemma add_words_lookup:
  "add_words i idx ws t = (if t \<in> set ws then Some (insert i (index_get idx t)) else idx t)"
proof (induction ws arbitrary: idx)
  case Nil
  then show ?case by simp
next
  case (Cons w ws)
  show ?case
    by (simp add: Cons add_word_lookup add_word_get)
qed

lemma Dataset_addDocument_fields:
  "documents (Dataset_addDocument ds i d) = (documents ds)(i \<mapsto> d)"
  "index (inverted_index (Dataset_addDocument ds i d)) =
     add_words i (index (inverted_index ds)) (tokenize (content d))"
  by (simp_all add: Dataset_addDocument_def Let_def InvertedIndex_addDocument_def)

lemma postings_stored_get:
  "postings_stored ds \<Longrightarrow> index_get (index (inverted_index ds)) t \<subseteq> dom (documents ds)"
  by (auto simp: postings_stored_def index_get_def split: option.splits)

lemma addDocument_postings_match:
  assumes pm: "postings_match ds" and fresh: "documents ds i = None"
    and low: "str_lower (content d) = content d"
  shows "postings_match (Dataset_addDocument ds i d)"
proof -
  have tok: "tokenize (content d) = str_split (content d)"
    by (simp add: tokenize_def low)
  have notin: "i \<notin> index_get (index (inverted_index ds)) t" for t
    using pm fresh by (simp add: postings_match_def)
  show ?thesis
    unfolding postings_match_def
  proof (intro allI)
    fix j t
    show "j \<in> index_get (index (inverted_index (Dataset_addDocument ds i d))) t \<longleftrightarrow>
          (\<exists>d'. documents (Dataset_addDocument ds i d) j = Some d' \<and> t \<in> set (str_split (content d')))"
    proof (cases "j = i")
      case True
      then show ?thesis
        using notin[of t] by (simp add: Dataset_addDocument_fields add_words_get tok)
    next
      case False
      then show ?thesis
        using pm by (simp add: Dataset_addDocument_fields add_words_get postings_match_def)
    qed
  qed
qed

lemma addDocument_postings_stored:
  assumes "postings_stored ds"
  shows "postings_stored (Dataset_addDocument ds i d)"
  unfolding postings_stored_def
proof (intro allI impI)
  fix t s
  assume "index (inverted_index (Dataset_addDocument ds i d)) t = Some s"
  then have "s = insert i (index_get (index (inverted_index ds)) t) \<or>
             index (inverted_index ds) t = Some s"
    by (auto simp: Dataset_addDocument_fields add_words_lookup split: if_splits)
  then show "s \<subseteq> dom (documents (Dataset_addDocument ds i d))"
  proof
    assume "s = insert i (index_get (index (inverted_index ds)) t)"
    then show ?thesis
      using postings_stored_get[OF assms, of t]
      by (auto simp: Dataset_addDocument_fields)
  next
    assume "index (inverted_index ds) t = Some s"
    then have "s \<subseteq> dom (documents ds)"
      using assms by (simp add: postings_stored_def)
    then show ?thesis
      by (auto simp: Dataset_addDocument_fields)
  qed
qed

lemma addDocument_postings_nonempty:
  assumes "postings_nonempty ds"
  shows "postings_nonempty (Dataset_addDocument ds i d)"
  using assms
  by (auto simp: postings_nonempty_def Dataset_addDocument_fields add_words_lookup)

lemma addDocument_dataset_inv:
  "dataset_inv ds \<Longrightarrow> documents ds i = None \<Longrightarrow> str_lower (content d) = content d \<Longrightarrow>
   dataset_inv (Dataset_addDocument ds i d)"
  by (simp add: dataset_inv_def addDocument_postings_match addDocument_postings_stored
        addDocument_postings_nonempty)

lemma dataset_inv_init: "dataset_inv Dataset_init"
  by (simp add: dataset_inv_def postings_match_def postings_stored_def postings_nonempty_def
        Dataset_init_def InvertedIndex_init_def index_get_def)

lemma docs_ok_mono: "docs_ok n ds \<Longrightarrow> n \<le> n' \<Longrightarrow> docs_ok n' ds"
  by (fastforce simp: docs_ok_def)

lemma docs_ok_fresh: "docs_ok n ds \<Longrightarrow> documents ds n = None"
  by (cases "documents ds n") (auto simp: docs_ok_def)

lemma engine_inv_init: "engine_inv SearchEngine_init"
  by (simp add: engine_inv_def SearchEngine_init_def)

lemma docs_ok_init: "docs_ok n Dataset_init"
  by (simp add: docs_ok_def Dataset_init_def)

lemma engine_inv_create: "engine_inv e \<Longrightarrow> engine_inv (create_dataset e name)"
  by (auto simp: engine_inv_def create_dataset_def dataset_inv_init docs_ok_init)

lemma engine_inv_insert:
  assumes inv: "engine_inv e"
  shows "engine_inv (snd (insert_document e name c m))"
proof (cases "datasets e name")
  case None
  then show ?thesis using inv by (simp add: insert_document_def)
next
  case (Some ds)
  let ?n = "next_doc_id e"
  let ?d = "Document_init ?n c m"
  let ?ds' = "Dataset_addDocument ds ?n ?d"
  from inv Some have dinv: "dataset_inv ds" and dok: "docs_ok ?n ds"
    by (auto simp: engine_inv_def)
  have low: "str_lower (content ?d) = content ?d"
    by (simp add: Document_init_def str_lower_idem)
  have one: "1 \<le> ?n"
    using inv by (simp add: engine_inv_def)
  have a: "dataset_inv ?ds'"
    by (rule addDocument_dataset_inv[OF dinv docs_ok_fresh[OF dok] low])
  have b: "docs_ok (?n + 1) ?ds'"
    unfolding docs_ok_def
  proof (intro allI impI)
    fix i d
    assume st: "documents ?ds' i = Some d"
    show "1 \<le> i \<and> i < ?n + 1 \<and> doc_id d = i \<and> str_lower (content d) = content d"
    proof (cases "i = ?n")
      case True
      with st have "d = ?d" by (simp add: Dataset_addDocument_fields)
      with True low one show ?thesis by (simp add: Document_init_def)
    next
      case False
      with st have "documents ds i = Some d" by (simp add: Dataset_addDocument_fields)
      with dok have "1 \<le> i \<and> i < ?n \<and> doc_id d = i \<and> str_lower (content d) = content d"
        by (simp add: docs_ok_def)
      then show ?thesis by simp
    qed
  qed
  have e': "snd (insert_document e name c m) =
        e\<lparr>datasets := (datasets e)(name \<mapsto> ?ds'), next_doc_id := ?n + 1\<rparr>"
    using Some by (simp add: insert_document_def Let_def)
  have others: "dataset_inv ds' \<and> docs_ok (?n + 1) ds'"
    if "datasets e name' = Some ds'" for name' ds'
  proof -
    from inv that have "dataset_inv ds'" and "docs_ok ?n ds'"
      by (auto simp: engine_inv_def)
    then show ?thesis
      using docs_ok_mono[of ?n ds' "?n + 1"] by simp
  qed
  show ?thesis
    unfolding e' engine_inv_def
    using inv a b others by (auto simp: engine_inv_def)
qed

lemma engine_inv_step: "engine_inv e \<Longrightarrow> engine_inv (step it e x)"
  by (cases x) (simp_all add: engine_inv_create engine_inv_insert)

lemma engine_inv_run: "engine_inv e \<Longrightarrow> engine_inv (run it e ops)"
  by (induction ops arbitrary: e) (simp_all add: engine_inv_step)

text \<open>
  Claim C4. Every sequence of \<open>create_dataset\<close>, \<open>insert_document\<close> and \<open>search\<close> calls
  keeps the invariant of every dataset: an id is in the posting set of a term exactly
  when the term is a whitespace-delimited token of the stored (lowercased) content of
  the document with that id, every posted id is a key of the document store, and no
  stored posting set is empty. Each operation preserves the invariant of the engine, and
  it holds on a new engine.
\<close>

theorem dataset_invariant_preserved:
  "(engine_inv e \<longrightarrow> engine_inv (step it e x)) \<and>
   engine_inv (run it SearchEngine_init ops) \<and>
   (\<forall>name ds. datasets (run it SearchEngine_init ops) name = Some ds \<longrightarrow>
      postings_match ds \<and> postings_stored ds \<and> postings_nonempty ds \<and>
      (\<forall>i d. documents ds i = Some d \<longrightarrow> str_lower (content d) = content d))"
proof -
  have a: "engine_inv e \<longrightarrow> engine_inv (step it e x)"
    by (simp add: engine_inv_step)
  have b: "engine_inv (run it SearchEngine_init ops)"
    by (rule engine_inv_run[OF engine_inv_init])
  then have c: "\<forall>name ds. datasets (run it SearchEngine_init ops) name = Some ds \<longrightarrow>
      postings_match ds \<and> postings_stored ds \<and> postings_nonempty ds \<and>
      (\<forall>i d. documents ds i = Some d \<longrightarrow> str_lower (content d) = content d)"
    by (simp add: engine_inv_def dataset_inv_def docs_ok_def)
  from a b c show ?thesis by blast
qed

theorem dataset_invariant_preserved_witness:
  "\<not> Option.is_none (datasets (run sorted_list_of_set SearchEngine_init example_ops) ''a'') \<and>
   engine_inv (run sorted_list_of_set SearchEngine_init example_ops) \<and>
   postings_match (the (datasets (run sorted_list_of_set SearchEngine_init example_ops) ''a'')) \<and>
   postings_stored (the (datasets (run sorted_list_of_set SearchEngine_init example_ops) ''a'')) \<and>
   postings_nonempty (the (datasets (run sorted_list_of_set SearchEngine_init example_ops) ''a''))"
proof -
  let ?e = "run sorted_list_of_set SearchEngine_init example_ops"
  have h: "\<not> Option.is_none (datasets ?e ''a'')"
    by code_simp
  then obtain ds where ds: "datasets ?e ''a'' = Some ds"
    by (auto simp: Option.is_none_def)
  from dataset_invariant_preserved
         [of SearchEngine_init sorted_list_of_set "CreateDataset ''a''" example_ops] h ds
  show ?thesis by (simp add: engine_inv_init)
qed


section \<open>What a search returns\<close>

lemma docs_ok_finite: "docs_ok n ds \<Longrightarrow> finite (dom (documents ds))"
proof -
  assume "docs_ok n ds"
  then have "dom (documents ds) \<subseteq> {1..<n}"
    by (auto simp: docs_ok_def)
  then show ?thesis
    by (rule finite_subset) simp
qed

lemma materialize_stored:
  "set ids \<subseteq> dom (documents ds) \<Longrightarrow>
   materialize ds ids = Inr (map (\<lambda>i. \<lparr>document = the (documents ds i)\<rparr>) ids)"
proof (induction ids)
  case Nil
  then show ?case by simp
next
  case (Cons i ids)
  then obtain d where "documents ds i = Some d" by auto
  with Cons show ?case by (simp add: gte_document_by_id_def)
qed

lemma search_ids:
  assumes pm: "postings_match ds" and ne: "ws \<noteq> []"
  shows "InvertedIndex_search (inverted_index ds) ws =
     {i. \<exists>d. documents ds i = Some d \<and> set ws \<subseteq> set (str_split (content d))}"
proof -
  obtain w ws' where ws: "ws = w # ws'" using ne by (cases ws) auto
  have "InvertedIndex_search (inverted_index ds) ws =
        (\<Inter>t\<in>set ws. index_get (index (inverted_index ds)) t)"
    by (simp add: ws intersect_rest_eq)
  also have "\<dots> = {i. \<exists>d. documents ds i = Some d \<and> set ws \<subseteq> set (str_split (content d))}"
    using pm unfolding postings_match_def ws by auto
  finally show ?thesis .
qed

lemma search_ids_stored:
  assumes "postings_stored ds"
  shows "InvertedIndex_search (inverted_index ds) ws \<subseteq> dom (documents ds)"
proof (cases ws)
  case Nil
  then show ?thesis by simp
next
  case (Cons w ws')
  have "InvertedIndex_search (inverted_index ds) ws \<subseteq> index_get (index (inverted_index ds)) w"
    by (auto simp: Cons intersect_rest_eq)
  with postings_stored_get[OF assms, of w] show ?thesis by blast
qed

lemma search_returns:
  assumes inv: "engine_inv e" and it: "valid_iter it" and ds: "datasets e name = Some ds"
  shows "SearchEngine_search it e name q k =
     (Inr (if truthy k then KeySortStrategy_sort (pre_sort it ds q) (the k) else pre_sort it ds q), e)"
proof -
  let ?S = "InvertedIndex_search (inverted_index ds) (tokenize q)"
  from inv ds have dinv: "dataset_inv ds" and dok: "docs_ok (next_doc_id e) ds"
    and st: "sort_strategy e = KeySortStrategy"
    by (auto simp: engine_inv_def)
  have sub: "?S \<subseteq> dom (documents ds)"
    using dinv by (simp add: dataset_inv_def search_ids_stored)
  then have "finite ?S"
    using docs_ok_finite[OF dok] by (rule finite_subset)
  with it have "set (it ?S) = ?S" by (simp add: valid_iter_def)
  with sub have "set (it ?S) \<subseteq> dom (documents ds)" by simp
  then have "materialize ds (it ?S) = Inr (pre_sort it ds q)"
    unfolding pre_sort_def by (rule materialize_stored)
  then show ?thesis
    using ds st by (simp add: SearchEngine_search_def Let_def)
qed

lemma pre_sort_documents:
  assumes inv: "engine_inv e" and it: "valid_iter it" and ds: "datasets e name = Some ds"
    and ne: "tokenize q \<noteq> []"
  shows "document ` set (pre_sort it ds q) =
     {d. d \<in> ran (documents ds) \<and> set (tokenize q) \<subseteq> set (str_split (content d))}"
proof -
  let ?S = "InvertedIndex_search (inverted_index ds) (tokenize q)"
  from inv ds have dinv: "dataset_inv ds" and dok: "docs_ok (next_doc_id e) ds"
    by (auto simp: engine_inv_def)
  have S: "?S = {i. \<exists>d. documents ds i = Some d \<and> set (tokenize q) \<subseteq> set (str_split (content d))}"
    using dinv ne by (simp add: dataset_inv_def search_ids)
  then have "?S \<subseteq> dom (documents ds)" by auto
  then have "finite ?S"
    using docs_ok_finite[OF dok] by (rule finite_subset)
  with it have "set (it ?S) = ?S" by (simp add: valid_iter_def)
  then have "document ` set (pre_sort it ds q) = (\<lambda>i. the (documents ds i)) ` ?S"
    by (simp add: pre_sort_def image_image)
  also have "\<dots> = {d. d \<in> ran (documents ds) \<and> set (tokenize q) \<subseteq> set (str_split (content d))}"
    unfolding S by (force simp: ran_def)
  finally show ?thesis .
qed


lemma search_result_documents:
  assumes inv: "engine_inv e" and it: "valid_iter it" and ds: "datasets e name = Some ds"
  shows "\<exists>rs. SearchEngine_search it e name q k = (Inr rs, e) \<and>
     (tokenize q = [] \<longrightarrow> rs = []) \<and>
     (tokenize q \<noteq> [] \<longrightarrow>
        document ` set rs =
          {d. d \<in> ran (documents ds) \<and> set (tokenize q) \<subseteq> set (tokenize (content d))})"
proof -
  let ?pre = "pre_sort it ds q"
  let ?rs = "if truthy k then KeySortStrategy_sort ?pre (the k) else ?pre"
  have ret: "SearchEngine_search it e name q k = (Inr ?rs, e)"
    by (rule search_returns[OF inv it ds])
  have same: "set ?rs = set ?pre"
    by (simp add: KeySortStrategy_sort_def)
  have "finite ({}::int set)" by simp
  with it have "set (it {}) = {}" unfolding valid_iter_def by blast
  then have empty: "tokenize q = [] \<Longrightarrow> ?rs = []"
    by (simp add: pre_sort_def KeySortStrategy_sort_def)
  from inv ds have dok: "docs_ok (next_doc_id e) ds"
    by (auto simp: engine_inv_def)
  have low: "tokenize (content d) = str_split (content d)" if "d \<in> ran (documents ds)" for d
    using that dok by (auto simp: ran_def docs_ok_def tokenize_def)
  have docs: "document ` set ?rs =
      {d. d \<in> ran (documents ds) \<and> set (tokenize q) \<subseteq> set (tokenize (content d))}"
    if ne: "tokenize q \<noteq> []"
  proof -
    have "document ` set ?rs = document ` set ?pre"
      using same by simp
    also have "\<dots> = {d. d \<in> ran (documents ds) \<and> set (tokenize q) \<subseteq> set (str_split (content d))}"
      by (rule pre_sort_documents[OF inv it ds ne])
    also have "\<dots> = {d. d \<in> ran (documents ds) \<and> set (tokenize q) \<subseteq> set (tokenize (content d))}"
      using low by auto
    finally show ?thesis .
  qed
  from ret empty docs show ?thesis by blast
qed

lemma insert_document_registered:
  assumes ds: "datasets e name = Some ds"
  shows "snd (insert_document e name c m) =
       e\<lparr>datasets := (datasets e)(name \<mapsto>
            Dataset_addDocument ds (next_doc_id e) (Document_init (next_doc_id e) c m)),
         next_doc_id := next_doc_id e + 1\<rparr>"
  using ds by (simp add: insert_document_def Let_def)

lemma valid_iter_sorted: "valid_iter sorted_list_of_set"
  by (simp add: valid_iter_def)

section \<open>Ordering the results\<close>

text \<open>
  \<open>SearchEngine.search\<close> of \<open>src/app.py\<close>, called with a non-empty key on a registered
  dataset of a state the engine reaches, returns the results in ascending order of the
  metadata value at the key (the empty string for a missing key); the result is a
  permutation of the list before the sort, and results with equal values stay in the
  order they had before the sort.
\<close>

lemma SearchEngine_search_sorted_stable:
  assumes inv: "engine_inv e" and it: "valid_iter it" and ds: "datasets e name = Some ds"
    and k: "k \<noteq> []"
  shows "\<exists>rs. SearchEngine_search it e name q (Some k) = (Inr rs, e) \<and>
     SearchEngine_search it e name q None = (Inr (pre_sort it ds q), e) \<and>
     sorted (map (\<lambda>r. get_key_value (document r) k) rs) \<and>
     mset rs = mset (pre_sort it ds q) \<and>
     (\<forall>v. filter (\<lambda>r. get_key_value (document r) k = v) rs =
          filter (\<lambda>r. get_key_value (document r) k = v) (pre_sort it ds q))"
proof -
  let ?f = "\<lambda>r. get_key_value (document r) k"
  let ?pre = "pre_sort it ds q"
  have a: "SearchEngine_search it e name q (Some k) = (Inr (sort_key ?f ?pre), e)"
    using search_returns[OF inv it ds, of q "Some k"] k
    by (simp add: truthy_def KeySortStrategy_sort_def)
  have b: "SearchEngine_search it e name q None = (Inr ?pre, e)"
    using search_returns[OF inv it ds, of q None] by (simp add: truthy_def)
  have c: "sorted (map ?f (sort_key ?f ?pre))"
    by (rule sorted_sort_key)
  have d: "mset (sort_key ?f ?pre) = mset ?pre"
    by simp
  have e: "\<forall>v. filter (\<lambda>r. ?f r = v) (sort_key ?f ?pre) = filter (\<lambda>r. ?f r = v) ?pre"
    by (simp add: sort_key_stable)
  from a b c d e show ?thesis by blast
qed


lemma SearchEngine_search_main_key_unused:
  "SearchEngine_search_main it e name q k = SearchEngine_search_main it e name q None"
  by (simp add: SearchEngine_search_main_def)

text \<open>
  Claim C2. \<open>SearchEngine.search\<close> of \<open>src/main.py\<close> does not sort: with the two blog
  documents, dated \<open>2024-08-20\<close> (id 1) and \<open>2023-01-01\<close> (id 2), and the ids iterated
  in ascending order, the search for \<open>"design pattern"\<close> ordered by \<open>date\<close> returns the
  later date first, where \<open>src/app.py\<close> returns the earlier date first.
\<close>

theorem search_main_not_sorted:
  "result_keys ''date'' (fst (SearchEngine_search_main sorted_list_of_set
       (run sorted_list_of_set SearchEngine_init blogs_ops)
       ''blogs'' ''design pattern'' (Some ''date''))) =
     Inr [''2024-08-20'', ''2023-01-01''] \<and>
   \<not> sorted [''2024-08-20'', ''2023-01-01''] \<and>
   result_keys ''date'' (fst (SearchEngine_search sorted_list_of_set
       (run sorted_list_of_set SearchEngine_init blogs_ops)
       ''blogs'' ''design pattern'' (Some ''date''))) =
     Inr [''2023-01-01'', ''2024-08-20'']"
proof -
  have a: "result_keys ''date'' (fst (SearchEngine_search_main sorted_list_of_set
       (run sorted_list_of_set SearchEngine_init blogs_ops)
       ''blogs'' ''design pattern'' (Some ''date''))) =
     Inr [''2024-08-20'', ''2023-01-01'']"
    by code_simp
  have b: "\<not> sorted [''2024-08-20'', ''2023-01-01'']"
    by code_simp
  have c: "result_keys ''date'' (fst (SearchEngine_search sorted_list_of_set
       (run sorted_list_of_set SearchEngine_init blogs_ops)
       ''blogs'' ''design pattern'' (Some ''date''))) =
     Inr [''2023-01-01'', ''2024-08-20'']"
    by code_simp
  from a b c show ?thesis by blast
qed


section \<open>Search over the store of set objects\<close>

lemma index_get_obj_eq:
  "index_get_obj idx h w = ((case idx w of None \<Rightarrow> length h | Some a \<Rightarrow> a), h @ [{}])"
  by (simp add: index_get_obj_def new_set_def split: option.splits)

lemma intersect_rest_obj_frame:
  assumes "\<forall>w a. idx w = Some a \<longrightarrow> a < n" and "n \<le> r" and "r < length h"
  shows "length h \<le> length (intersect_rest_obj idx h r ws) \<and>
         (\<forall>a<r. intersect_rest_obj idx h r ws ! a = h ! a) \<and>
         intersect_rest_obj idx h r ws ! r =
           intersect_rest (\<lambda>w. map_option ((!) h) (idx w)) (h ! r) ws"
  using assms
proof (induction ws arbitrary: h)
  case Nil
  then show ?case by simp
next
  case (Cons w ws)
  let ?a = "case idx w of None \<Rightarrow> length h | Some a \<Rightarrow> a"
  let ?h1 = "h @ [{}]"
  let ?h2 = "intersection_update ?h1 r ?a"
  have step: "intersect_rest_obj idx h r (w # ws) = intersect_rest_obj idx ?h2 r ws"
    by (simp add: index_get_obj_eq)
  have len2: "length ?h2 = Suc (length h)"
    by (simp add: intersection_update_def)
  have r2: "r < length ?h2" using Cons.prems len2 by simp
  have old: "?h2 ! a = h ! a" if "a < r" for a
    using that Cons.prems by (simp add: intersection_update_def nth_append)
  have geta: "?h1 ! ?a = index_get (\<lambda>w. map_option ((!) h) (idx w)) w"
  proof (cases "idx w")
    case None
    then show ?thesis by (simp add: index_get_def)
  next
    case (Some a)
    with Cons.prems have "a < length h" by fastforce
    with Some show ?thesis by (simp add: index_get_def nth_append)
  qed
  have atr: "?h2 ! r = h ! r \<inter> index_get (\<lambda>w. map_option ((!) h) (idx w)) w"
    using Cons.prems geta by (simp add: intersection_update_def nth_append)
  have same_idx: "(\<lambda>w. map_option ((!) ?h2) (idx w)) = (\<lambda>w. map_option ((!) h) (idx w))"
  proof
    fix v
    show "map_option ((!) ?h2) (idx v) = map_option ((!) h) (idx v)"
    proof (cases "idx v")
      case None
      then show ?thesis by simp
    next
      case (Some a)
      with Cons.prems have "a < r" by fastforce
      with Some old show ?thesis by simp
    qed
  qed
  from Cons.IH[OF Cons.prems(1) Cons.prems(2) r2]
  have ih: "length ?h2 \<le> length (intersect_rest_obj idx ?h2 r ws)"
    "\<forall>a<r. intersect_rest_obj idx ?h2 r ws ! a = ?h2 ! a"
    "intersect_rest_obj idx ?h2 r ws ! r =
       intersect_rest (\<lambda>w. map_option ((!) ?h2) (idx w)) (?h2 ! r) ws"
    by blast+
  show ?case
    unfolding step
    using ih len2 old atr same_idx by simp
qed

lemma InvertedIndex_search_obj_frame:
  assumes valid: "\<forall>w a. index_obj ix w = Some a \<longrightarrow> a < length h"
    and res: "InvertedIndex_search_obj ix h ws = (r, h')"
  shows "length h \<le> length h' \<and> (\<forall>a<length h. h' ! a = h ! a) \<and>
         h' ! r = InvertedIndex_search (abs_index h ix) ws"
proof (cases ws)
  case Nil
  with res show ?thesis by (auto simp: new_set_def nth_append)
next
  case (Cons w ws')
  let ?idx = "index_obj ix"
  let ?a = "case ?idx w of None \<Rightarrow> length h | Some a \<Rightarrow> a"
  let ?h1 = "h @ [{}]"
  let ?h2 = "?h1 @ [?h1 ! ?a]"
  let ?r = "Suc (length h)"
  from res Cons have r: "r = ?r" and h': "h' = intersect_rest_obj ?idx ?h2 ?r ws'"
    by (auto simp: index_get_obj_eq set_copy_def)
  have v2: "\<forall>w a. ?idx w = Some a \<longrightarrow> a < length h" by (rule valid)
  have fr: "length ?h2 \<le> length h' \<and> (\<forall>a<?r. h' ! a = ?h2 ! a) \<and>
      h' ! ?r = intersect_rest (\<lambda>w. map_option ((!) ?h2) (?idx w)) (?h2 ! ?r) ws'"
    unfolding h' by (rule intersect_rest_obj_frame[OF v2]) simp_all
  have geta: "?h1 ! ?a = index_get (\<lambda>w. map_option ((!) h) (?idx w)) w"
  proof (cases "?idx w")
    case None
    then show ?thesis by (simp add: index_get_def)
  next
    case (Some a)
    with valid have "a < length h" by fastforce
    with Some show ?thesis by (simp add: index_get_def nth_append)
  qed
  have same_idx: "(\<lambda>w. map_option ((!) ?h2) (?idx w)) = (\<lambda>w. map_option ((!) h) (?idx w))"
  proof
    fix v
    show "map_option ((!) ?h2) (?idx v) = map_option ((!) h) (?idx v)"
    proof (cases "?idx v")
      case None
      then show ?thesis by simp
    next
      case (Some a)
      with valid have "a < length h" by fastforce
      with Some show ?thesis by (simp add: nth_append)
    qed
  qed
  have seed: "?h2 ! ?r = index_get (\<lambda>w. map_option ((!) h) (?idx w)) w"
    using geta by (simp add: nth_append)
  have a: "length h \<le> length h'" using fr by simp
  have b: "\<forall>a<length h. h' ! a = h ! a"
    using fr by (simp add: nth_append)
  have c: "h' ! r = InvertedIndex_search (abs_index h ix) ws"
    using fr same_idx seed by (simp add: r Cons abs_index_def)
  from a b c show ?thesis by blast
qed


lemma materialize_obj_abs: "materialize_obj ds ids = materialize (abs_dataset h ds) ids"
  by (induction ids)
     (simp_all add: gte_document_by_id_def abs_dataset_def split: option.splits sum.splits)

lemma abs_engine_store:
  assumes ok: "refs_ok e" and same: "\<forall>a<length (store e). h' ! a = store e ! a"
  shows "abs_engine (e\<lparr>store := h'\<rparr>) = abs_engine e"
proof -
  have ix: "abs_dataset h' ds = abs_dataset (store e) ds" if "datasets_obj e n = Some ds" for n ds
  proof -
    have "map_option ((!) h') (index_obj (inverted_index_obj ds) w) =
          map_option ((!) (store e)) (index_obj (inverted_index_obj ds) w)" for w
    proof (cases "index_obj (inverted_index_obj ds) w")
      case None
      then show ?thesis by simp
    next
      case (Some a)
      with ok that have "a < length (store e)" unfolding refs_ok_def by blast
      with same Some show ?thesis by simp
    qed
    then show ?thesis by (simp add: abs_dataset_def abs_index_def)
  qed
  have "map_option (abs_dataset h') (datasets_obj e n) =
        map_option (abs_dataset (store e)) (datasets_obj e n)" for n
    using ix[of n] by (cases "datasets_obj e n") simp_all
  then show ?thesis by (simp add: abs_engine_def)
qed

text \<open>
  Claim C10. \<open>SearchEngine.search\<close> changes nothing of the engine, for every dataset
  name, query and key: after the call the registry, the document stores, the indexes,
  the strategy and \<open>next_doc_id\<close> are as before, and every set object that existed before
  the call holds the same ids, because \<open>intersection_update\<close> is applied to the copy of
  the first posting set; the call only adds new set objects to the store. The engine
  that the state stands for is the same before and after, and the result is the one of
  the search on that engine.
\<close>

theorem search_leaves_engine_unchanged:
  assumes ok: "refs_ok e"
  shows "datasets_obj (snd (SearchEngine_search_obj it e name q k)) = datasets_obj e \<and>
     sort_strategy_obj (snd (SearchEngine_search_obj it e name q k)) = sort_strategy_obj e \<and>
     next_doc_id_obj (snd (SearchEngine_search_obj it e name q k)) = next_doc_id_obj e \<and>
     take (length (store e)) (store (snd (SearchEngine_search_obj it e name q k))) = store e \<and>
     abs_engine (snd (SearchEngine_search_obj it e name q k)) = abs_engine e \<and>
     fst (SearchEngine_search_obj it e name q k) =
       fst (SearchEngine_search it (abs_engine e) name q k)"
proof (cases "datasets_obj e name")
  case None
  then show ?thesis
    by (simp add: SearchEngine_search_obj_def SearchEngine_search_def abs_engine_def)
next
  case (Some ds)
  let ?R = "SearchEngine_search_obj it e name q k"
  obtain r h' where res:
    "InvertedIndex_search_obj (inverted_index_obj ds) (store e) (tokenize q) = (r, h')"
    by (cases "InvertedIndex_search_obj (inverted_index_obj ds) (store e) (tokenize q)")
  have valid: "\<forall>w a. index_obj (inverted_index_obj ds) w = Some a \<longrightarrow> a < length (store e)"
    using ok Some unfolding refs_ok_def by blast
  from InvertedIndex_search_obj_frame[OF valid res]
  have len: "length (store e) \<le> length h'"
    and same: "\<forall>a<length (store e). h' ! a = store e ! a"
    and hr: "h' ! r = InvertedIndex_search (abs_index (store e) (inverted_index_obj ds)) (tokenize q)"
    by blast+
  have snd_eq: "snd ?R = e\<lparr>store := h'\<rparr>"
    using Some res by (simp add: SearchEngine_search_obj_def Let_def split: sum.splits)
  have tk: "take (length (store e)) h' = store e"
    using len same by (simp add: list_eq_iff_nth_eq)
  have abs: "abs_engine (e\<lparr>store := h'\<rparr>) = abs_engine e"
    by (rule abs_engine_store[OF ok same])
  have fst_eq: "fst ?R = fst (SearchEngine_search it (abs_engine e) name q k)"
    using Some res hr
    by (simp add: SearchEngine_search_obj_def SearchEngine_search_def Let_def abs_engine_def
          materialize_obj_abs[of ds _ "store e"] abs_dataset_def split: sum.splits)
  from snd_eq tk abs fst_eq show ?thesis by simp
qed

theorem search_leaves_engine_unchanged_witness:
  "refs_ok example_engine_obj \<and>
   store example_engine_obj = [{1}, {1, 2}] \<and>
   take 2 (store (snd (SearchEngine_search_obj sorted_list_of_set example_engine_obj
       ''d'' ''A b'' None))) = [{1}, {1, 2}] \<and>
   result_ids (fst (SearchEngine_search_obj sorted_list_of_set example_engine_obj
       ''d'' ''A b'' None)) = Inr [1]"
proof -
  have ok: "refs_ok example_engine_obj"
    by (auto simp: refs_ok_def example_engine_obj_def split: if_splits)
  have st: "store example_engine_obj = [{1}, {1, 2}]"
    by (simp add: example_engine_obj_def)
  have ids: "result_ids (fst (SearchEngine_search_obj sorted_list_of_set example_engine_obj
       ''d'' ''A b'' None)) = Inr [1]"
    by code_simp
  from search_leaves_engine_unchanged [OF ok, of sorted_list_of_set "''d''" "''A b''" None]
  have "take (length (store example_engine_obj))
          (store (snd (SearchEngine_search_obj sorted_list_of_set example_engine_obj
             ''d'' ''A b'' None))) = store example_engine_obj"
    by blast
  with ok st ids show ?thesis by (simp add: numeral_2_eq_2)
qed


section \<open>The ids of the stored documents\<close>

lemma stored_at_create [simp]: "stored_at (create_dataset e name) n i = stored_at e n i"
  by (simp add: stored_at_def create_dataset_def Dataset_init_def dom_def split: option.splits)

lemma stored_at_insert:
  assumes "datasets e name = Some ds"
  shows "stored_at (snd (insert_document e name c m)) n i =
     (if n = name \<and> i = next_doc_id e then Some (Document_init (next_doc_id e) c m)
      else stored_at e n i)"
  using assms
  by (simp add: insert_document_registered[OF assms] stored_at_def Dataset_addDocument_fields)

lemma insert_document_unregistered:
  "datasets e name = None \<Longrightarrow> insert_document e name c m = (Inl DatasetNotFound, e)"
  by (simp add: insert_document_def)

lemma insert_document_returns:
  "datasets e name = Some ds \<Longrightarrow> fst (insert_document e name c m) = Inr ()"
  by (simp add: insert_document_def Let_def)

lemma next_doc_id_insert:
  "datasets e name = Some ds \<Longrightarrow>
   next_doc_id (snd (insert_document e name c m)) = next_doc_id e + 1"
  by (simp add: insert_document_def Let_def)

lemma ids_inv_init: "ids_inv SearchEngine_init"
  by (simp add: ids_inv_def stored_at_def SearchEngine_init_def)

lemma ids_inv_create: "ids_inv e \<Longrightarrow> ids_inv (create_dataset e name)"
  by (simp add: ids_inv_def)

lemma ids_inv_insert:
  assumes inv: "ids_inv e"
  shows "ids_inv (snd (insert_document e name c m))"
proof (cases "datasets e name")
  case None
  then show ?thesis using inv by (simp add: insert_document_unregistered)
next
  case (Some ds)
  let ?e' = "snd (insert_document e name c m)"
  let ?n = "next_doc_id e"
  note st = stored_at_insert[OF Some, of c m]
  note nx = next_doc_id_insert[OF Some, of c m]
  from inv have one: "1 \<le> ?n"
    and own: "\<And>nm i d. stored_at e nm i = Some d \<Longrightarrow> doc_id d = i \<and> 1 \<le> i \<and> i < ?n"
    and all: "\<And>i. 1 \<le> i \<Longrightarrow> i < ?n \<Longrightarrow> \<exists>nm. stored_at e nm i \<noteq> None"
    and uniq: "\<And>i n1 n2. stored_at e n1 i \<noteq> None \<Longrightarrow> stored_at e n2 i \<noteq> None \<Longrightarrow> n1 = n2"
    unfolding ids_inv_def by blast+
  have fresh: "stored_at e nm ?n = None" for nm
  proof (cases "stored_at e nm ?n")
    case None
    then show ?thesis .
  next
    case (Some d)
    from own[OF Some] show ?thesis by simp
  qed
  have a: "1 \<le> next_doc_id ?e'" using one nx by simp
  have b: "doc_id d = i \<and> 1 \<le> i \<and> i < next_doc_id ?e'" if "stored_at ?e' nm i = Some d" for nm i d
  proof (cases "nm = name \<and> i = ?n")
    case True
    with that st have "d = Document_init ?n c m" by simp
    with True one nx show ?thesis by (simp add: Document_init_def)
  next
    case False
    with that st have "stored_at e nm i = Some d" by simp
    from own[OF this] nx show ?thesis by simp
  qed
  have c: "\<exists>nm. stored_at ?e' nm i \<noteq> None" if "1 \<le> i" "i < next_doc_id ?e'" for i
  proof (cases "i = ?n")
    case True
    then have "stored_at ?e' name i \<noteq> None" using st by simp
    then show ?thesis by blast
  next
    case False
    with that nx have "i < ?n" by simp
    from all[OF that(1) this] obtain nm where "stored_at e nm i \<noteq> None" by blast
    with False st have "stored_at ?e' nm i \<noteq> None" by simp
    then show ?thesis by blast
  qed
  have d: "n1 = n2" if "stored_at ?e' n1 i \<noteq> None" "stored_at ?e' n2 i \<noteq> None" for i n1 n2
  proof (cases "i = ?n")
    case True
    with that st fresh show ?thesis by (simp split: if_splits)
  next
    case False
    with that st have "stored_at e n1 i \<noteq> None" "stored_at e n2 i \<noteq> None" by simp_all
    then show ?thesis by (rule uniq)
  qed
  show ?thesis
    unfolding ids_inv_def using a b c d by blast
qed

lemma ids_inv_step: "ids_inv e \<Longrightarrow> ids_inv (step it e x)"
  by (cases x) (simp_all add: ids_inv_create ids_inv_insert)

lemma ids_inv_run: "ids_inv e \<Longrightarrow> ids_inv (run it e ops)"
  by (induction ops arbitrary: e) (simp_all add: ids_inv_step)

lemma next_doc_id_count:
  "next_doc_id (run it e ops) = next_doc_id e + int (count_inserted it e ops)"
proof (induction ops arbitrary: e)
  case Nil
  then show ?case by simp
next
  case (Cons x xs)
  show ?case
  proof (cases x)
    case (CreateDataset name)
    with Cons[of "create_dataset e name"] show ?thesis by simp
  next
    case (Search name q k)
    with Cons[of e] show ?thesis by simp
  next
    case (InsertDocument name c m)
    from insert_document_cases[of e name c m] show ?thesis
    proof (elim disjE conjE exE)
      assume "insert_document e name c m = (Inl DatasetNotFound, e)"
      with Cons[of e] InsertDocument show ?thesis by simp
    next
      fix e'
      assume "insert_document e name c m = (Inr (), e')"
        and "next_doc_id e' = next_doc_id e + 1"
      with Cons[of e'] InsertDocument show ?thesis by simp
    qed
  qed
qed

text \<open>
  Claim C5. After any sequence of operations on a new engine with n successful
  insertions, whichever datasets they went to: the counter is \<open>n + 1\<close>; every stored
  document is stored under its own \<open>doc_id\<close>, which lies in \<open>1..n\<close>; every id in \<open>1..n\<close>
  is the key of a document; no id is a key in two datasets. The next insertion into a
  registered dataset succeeds and stores a document with \<open>doc_id\<close> \<open>n + 1\<close> under the key
  \<open>n + 1\<close>, which no dataset held before, and changes no other entry. So the n-th
  successful insertion receives the id n, without a gap and without reuse.
\<close>

theorem document_ids_consecutive:
  "next_doc_id (run it SearchEngine_init ops) = 1 + int (count_inserted it SearchEngine_init ops) \<and>
   (\<forall>name i d. stored_at (run it SearchEngine_init ops) name i = Some d \<longrightarrow>
      doc_id d = i \<and> 1 \<le> i \<and> i \<le> int (count_inserted it SearchEngine_init ops)) \<and>
   (\<forall>i. 1 \<le> i \<and> i \<le> int (count_inserted it SearchEngine_init ops) \<longrightarrow>
      (\<exists>name. stored_at (run it SearchEngine_init ops) name i \<noteq> None)) \<and>
   (\<forall>i name1 name2. stored_at (run it SearchEngine_init ops) name1 i \<noteq> None \<and>
      stored_at (run it SearchEngine_init ops) name2 i \<noteq> None \<longrightarrow> name1 = name2) \<and>
   (\<forall>name c m. datasets (run it SearchEngine_init ops) name \<noteq> None \<longrightarrow>
      fst (insert_document (run it SearchEngine_init ops) name c m) = Inr () \<and>
      stored_at (snd (insert_document (run it SearchEngine_init ops) name c m)) name
          (int (count_inserted it SearchEngine_init ops) + 1) =
        Some \<lparr>doc_id = int (count_inserted it SearchEngine_init ops) + 1,
              content = str_lower c, meta_data = m\<rparr> \<and>
      (\<forall>name'. stored_at (run it SearchEngine_init ops) name'
          (int (count_inserted it SearchEngine_init ops) + 1) = None) \<and>
      (\<forall>name' i. \<not> (name' = name \<and> i = int (count_inserted it SearchEngine_init ops) + 1) \<longrightarrow>
          stored_at (snd (insert_document (run it SearchEngine_init ops) name c m)) name' i =
          stored_at (run it SearchEngine_init ops) name' i))"
proof -
  let ?e = "run it SearchEngine_init ops"
  let ?n = "int (count_inserted it SearchEngine_init ops)"
  have nx: "next_doc_id ?e = 1 + ?n"
    using next_doc_id_count[of it SearchEngine_init ops] by (simp add: SearchEngine_init_def)
  have inv: "ids_inv ?e"
    by (rule ids_inv_run[OF ids_inv_init])
  have own: "\<forall>name i d. stored_at ?e name i = Some d \<longrightarrow> doc_id d = i \<and> 1 \<le> i \<and> i \<le> ?n"
    using inv nx unfolding ids_inv_def by fastforce
  have all: "\<forall>i. 1 \<le> i \<and> i \<le> ?n \<longrightarrow> (\<exists>name. stored_at ?e name i \<noteq> None)"
    using inv nx unfolding ids_inv_def by fastforce
  have uniq: "\<forall>i name1 name2. stored_at ?e name1 i \<noteq> None \<and> stored_at ?e name2 i \<noteq> None
      \<longrightarrow> name1 = name2"
    using inv unfolding ids_inv_def by blast
  have fresh: "stored_at ?e name' (?n + 1) = None" for name'
  proof (cases "stored_at ?e name' (?n + 1)")
    case None
    then show ?thesis .
  next
    case (Some d)
    with own have "?n + 1 \<le> ?n" by blast
    then show ?thesis by simp
  qed
  have ins: "fst (insert_document ?e name c m) = Inr () \<and>
      stored_at (snd (insert_document ?e name c m)) name (?n + 1) =
        Some \<lparr>doc_id = ?n + 1, content = str_lower c, meta_data = m\<rparr> \<and>
      (\<forall>name'. stored_at ?e name' (?n + 1) = None) \<and>
      (\<forall>name' i. \<not> (name' = name \<and> i = ?n + 1) \<longrightarrow>
          stored_at (snd (insert_document ?e name c m)) name' i = stored_at ?e name' i)"
    if reg: "datasets ?e name \<noteq> None" for name c m
  proof -
    from reg obtain ds where ds: "datasets ?e name = Some ds" by blast
    have k: "next_doc_id ?e = ?n + 1" using nx by simp
    show ?thesis
      using fresh
      by (simp add: insert_document_returns[OF ds] stored_at_insert[OF ds] k Document_init_def)
  qed
  from nx own all uniq ins show ?thesis by blast
qed


theorem document_ids_consecutive_witness:
  "count_inserted sorted_list_of_set SearchEngine_init example_ops = 3 \<and>
   next_doc_id (run sorted_list_of_set SearchEngine_init example_ops) = 4 \<and>
   map_option doc_id (stored_at (run sorted_list_of_set SearchEngine_init example_ops) ''a'' 1) = Some 1 \<and>
   map_option doc_id (stored_at (run sorted_list_of_set SearchEngine_init example_ops) ''b'' 2) = Some 2 \<and>
   map_option doc_id (stored_at (run sorted_list_of_set SearchEngine_init example_ops) ''a'' 3) = Some 3 \<and>
   datasets (run sorted_list_of_set SearchEngine_init example_ops) ''b'' \<noteq> None \<and>
   stored_at (snd (insert_document (run sorted_list_of_set SearchEngine_init example_ops)
       ''b'' ''Fourth'' Map.empty)) ''b'' 4 =
     Some \<lparr>doc_id = 4, content = str_lower ''Fourth'', meta_data = Map.empty\<rparr>"
proof -
  let ?e = "run sorted_list_of_set SearchEngine_init example_ops"
  have cnt: "count_inserted sorted_list_of_set SearchEngine_init example_ops = 3"
    by code_simp
  have "\<not> Option.is_none (datasets ?e ''b'')"
    by code_simp
  then have reg: "datasets ?e ''b'' \<noteq> None"
    by (simp add: Option.is_none_def)
  have d1: "map_option doc_id (stored_at ?e ''a'' 1) = Some 1"
    by code_simp
  have d2: "map_option doc_id (stored_at ?e ''b'' 2) = Some 2"
    by code_simp
  have d3: "map_option doc_id (stored_at ?e ''a'' 3) = Some 3"
    by code_simp
  from document_ids_consecutive [of sorted_list_of_set example_ops] cnt reg d1 d2 d3
  show ?thesis by simp
qed


section \<open>Matching documents\<close>

lemma run_append: "run it e (xs @ ys) = run it (run it e xs) ys"
  by (induction xs arbitrary: e) simp_all

lemma stored_at_step:
  assumes inv: "ids_inv e" and st: "stored_at e name i = Some d"
  shows "stored_at (step it e x) name i = Some d"
proof (cases x)
  case (CreateDataset n)
  with st show ?thesis by simp
next
  case (Search n q k)
  with st show ?thesis by simp
next
  case (InsertDocument n c m)
  show ?thesis
  proof (cases "datasets e n")
    case None
    with st InsertDocument show ?thesis by (simp add: insert_document_unregistered)
  next
    case (Some ds)
    from inv st have "i < next_doc_id e" unfolding ids_inv_def by blast
    with st InsertDocument show ?thesis by (simp add: stored_at_insert[OF Some])
  qed
qed

lemma stored_at_run:
  "ids_inv e \<Longrightarrow> stored_at e name i = Some d \<Longrightarrow> stored_at (run it e ops) name i = Some d"
  by (induction ops arbitrary: e) (simp_all add: ids_inv_step stored_at_step)

lemma built_by_same:
  assumes bb: "built_by hist e" and same: "\<And>n i. stored_at e' n i = stored_at e n i"
  shows "built_by (hist @ [x]) e'"
  unfolding built_by_def
proof (intro allI impI)
  fix name i d
  assume "stored_at e' name i = Some d"
  then have "stored_at e name i = Some d" by (simp add: same)
  with bb obtain c m where "InsertDocument name c m \<in> set hist" and "d = Document_init i c m"
    unfolding built_by_def by blast
  then show "\<exists>c m. InsertDocument name c m \<in> set (hist @ [x]) \<and> d = Document_init i c m"
    by auto
qed

lemma built_by_step:
  assumes bb: "built_by hist e"
  shows "built_by (hist @ [x]) (step it e x)"
proof (cases x)
  case (CreateDataset n)
  show ?thesis
    by (rule built_by_same[OF bb]) (simp add: CreateDataset)
next
  case (Search n q k)
  show ?thesis
    by (rule built_by_same[OF bb]) (simp add: Search)
next
  case (InsertDocument n c m)
  show ?thesis
  proof (cases "datasets e n")
    case None
    show ?thesis
      by (rule built_by_same[OF bb]) (simp add: InsertDocument insert_document_unregistered[OF None])
  next
    case (Some ds)
    show ?thesis
      unfolding built_by_def
    proof (intro allI impI)
      fix name i d
      assume st: "stored_at (step it e x) name i = Some d"
      show "\<exists>c' m'. InsertDocument name c' m' \<in> set (hist @ [x]) \<and> d = Document_init i c' m'"
      proof (cases "name = n \<and> i = next_doc_id e")
        case True
        with st InsertDocument have "d = Document_init i c m"
          by (simp add: stored_at_insert[OF Some])
        with True InsertDocument show ?thesis by auto
      next
        case False
        with st InsertDocument have "stored_at e name i = Some d"
          by (simp add: stored_at_insert[OF Some])
        with bb obtain c' m' where "InsertDocument name c' m' \<in> set hist"
          and "d = Document_init i c' m'"
          unfolding built_by_def by blast
        then show ?thesis by auto
      qed
    qed
  qed
qed

lemma built_by_run: "built_by hist e \<Longrightarrow> built_by (hist @ ops) (run it e ops)"
proof (induction ops arbitrary: hist e)
  case Nil
  then show ?case by simp
next
  case (Cons x xs)
  from Cons.IH[OF built_by_step[OF Cons.prems, of x it]] show ?case by simp
qed

lemma built_by_init: "built_by [] SearchEngine_init"
  by (simp add: built_by_def stored_at_def SearchEngine_init_def)

text \<open>
  Claim C6 as stated fails for a query without tokens: all of its (zero) tokens occur in
  \<open>"hello world"\<close>, and the search for \<open>""\<close> returns nothing.
\<close>

theorem empty_query_matches_nothing:
  "set (tokenize []) \<subseteq> set (tokenize ''Hello World'') \<and>
   result_ids (fst (SearchEngine_search sorted_list_of_set
       (run sorted_list_of_set SearchEngine_init hello_ops) ''d'' [] None)) = Inr []"
proof -
  have a: "set (tokenize []) \<subseteq> set (tokenize ''Hello World'')"
    by code_simp
  have b: "result_ids (fst (SearchEngine_search sorted_list_of_set
       (run sorted_list_of_set SearchEngine_init hello_ops) ''d'' [] None)) = Inr []"
    by code_simp
  from a b show ?thesis by blast
qed

text \<open>
  Claim C6, amended. Search is case-insensitive. Take any history in which the content
  \<open>c\<close> is inserted into a registered dataset, followed by any further operations. A
  search in that dataset then returns; for a query without tokens it returns nothing;
  for a query with at least one token it returns the document inserted with \<open>c\<close> exactly
  when every token of the lowercased query is a token of the lowercased \<open>c\<close>, and the
  documents it returns are exactly the stored documents whose tokens include those of
  the query. Every stored document was built from an inserted content and has the tokens
  of that content lowercased.
\<close>

theorem search_matches_query_tokens:
  assumes it: "valid_iter it"
    and reg: "datasets (run it SearchEngine_init ops1) name = Some ds1"
  shows "\<exists>ds rs.
     datasets (run it SearchEngine_init (ops1 @ InsertDocument name c m # ops2)) name = Some ds \<and>
     SearchEngine_search it (run it SearchEngine_init (ops1 @ InsertDocument name c m # ops2))
         name q k =
       (Inr rs, run it SearchEngine_init (ops1 @ InsertDocument name c m # ops2)) \<and>
     (tokenize q = [] \<longrightarrow> rs = []) \<and>
     (tokenize q \<noteq> [] \<longrightarrow>
        ((\<exists>r\<in>set rs. doc_id (document r) = next_doc_id (run it SearchEngine_init ops1)) \<longleftrightarrow>
           set (tokenize q) \<subseteq> set (tokenize c)) \<and>
        (\<forall>d. d \<in> document ` set rs \<longleftrightarrow>
           d \<in> ran (documents ds) \<and> set (tokenize q) \<subseteq> set (tokenize (content d)))) \<and>
     (\<forall>i d. documents ds i = Some d \<longrightarrow>
        (\<exists>c' m'. InsertDocument name c' m' \<in> set (ops1 @ InsertDocument name c m # ops2) \<and>
           d = Document_init i c' m' \<and> tokenize (content d) = tokenize c'))"
proof -
  let ?e1 = "run it SearchEngine_init ops1"
  let ?n = "next_doc_id ?e1"
  let ?d0 = "Document_init ?n c m"
  let ?e1' = "snd (insert_document ?e1 name c m)"
  let ?ops = "ops1 @ InsertDocument name c m # ops2"
  let ?e2 = "run it SearchEngine_init ?ops"
  have e2: "?e2 = run it ?e1' ops2"
    by (simp add: run_append)
  have inv2: "engine_inv ?e2"
    by (rule engine_inv_run[OF engine_inv_init])
  have ids1': "ids_inv ?e1'"
    by (rule ids_inv_insert[OF ids_inv_run[OF ids_inv_init]])
  have "stored_at ?e1' name ?n = Some ?d0"
    by (simp add: stored_at_insert[OF reg])
  from stored_at_run[OF ids1' this, of it ops2]
  have st2: "stored_at ?e2 name ?n = Some ?d0"
    by (simp add: e2)
  then obtain ds where ds: "datasets ?e2 name = Some ds" and d0: "documents ds ?n = Some ?d0"
    by (auto simp: stored_at_def split: option.splits)
  from search_result_documents[OF inv2 it ds, of q k]
  obtain rs where ret: "SearchEngine_search it ?e2 name q k = (Inr rs, ?e2)"
    and empty: "tokenize q = [] \<longrightarrow> rs = []"
    and docs: "tokenize q \<noteq> [] \<longrightarrow> document ` set rs =
          {d. d \<in> ran (documents ds) \<and> set (tokenize q) \<subseteq> set (tokenize (content d))}"
    by blast
  from inv2 ds have dok: "docs_ok (next_doc_id ?e2) ds"
    by (auto simp: engine_inv_def)
  have tokd: "tokenize (content ?d0) = tokenize c"
    by (simp add: Document_init_def tokenize_def str_lower_idem)
  have new: "(\<exists>r\<in>set rs. doc_id (document r) = ?n) \<longleftrightarrow> set (tokenize q) \<subseteq> set (tokenize c)"
    if ne: "tokenize q \<noteq> []"
  proof
    assume "\<exists>r\<in>set rs. doc_id (document r) = ?n"
    then obtain r where r: "r \<in> set rs" and id: "doc_id (document r) = ?n" by blast
    from r docs ne have in_ran: "document r \<in> ran (documents ds)"
      and sub: "set (tokenize q) \<subseteq> set (tokenize (content (document r)))"
      by auto
    from in_ran obtain i where i: "documents ds i = Some (document r)"
      by (auto simp: ran_def)
    with dok have "doc_id (document r) = i" by (simp add: docs_ok_def)
    with id i d0 have "document r = ?d0" by simp
    with sub tokd show "set (tokenize q) \<subseteq> set (tokenize c)" by simp
  next
    assume sub: "set (tokenize q) \<subseteq> set (tokenize c)"
    have "?d0 \<in> ran (documents ds)"
      using d0 by (auto simp: ran_def)
    with sub tokd docs ne have "?d0 \<in> document ` set rs" by simp
    then obtain r where r: "r \<in> set rs" and "document r = ?d0" by auto
    then have "doc_id (document r) = ?n"
      by (simp add: Document_init_def)
    with r show "\<exists>r\<in>set rs. doc_id (document r) = ?n" by blast
  qed
  have allr: "\<forall>d. d \<in> document ` set rs \<longleftrightarrow>
           d \<in> ran (documents ds) \<and> set (tokenize q) \<subseteq> set (tokenize (content d))"
    if ne: "tokenize q \<noteq> []"
    using docs ne by simp
  have bb: "built_by ?ops ?e2"
    using built_by_run[OF built_by_init, where it = it and ops = ?ops] by simp
  have prov: "\<forall>i d. documents ds i = Some d \<longrightarrow>
        (\<exists>c' m'. InsertDocument name c' m' \<in> set ?ops \<and>
           d = Document_init i c' m' \<and> tokenize (content d) = tokenize c')"
  proof (intro allI impI)
    fix i d
    assume "documents ds i = Some d"
    then have "stored_at ?e2 name i = Some d"
      using ds by (simp add: stored_at_def)
    with bb obtain c' m' where in_ops: "InsertDocument name c' m' \<in> set ?ops"
      and d: "d = Document_init i c' m'"
      unfolding built_by_def by blast
    have "tokenize (content d) = tokenize c'"
      by (simp add: d Document_init_def tokenize_def str_lower_idem)
    with in_ops d show "\<exists>c' m'. InsertDocument name c' m' \<in> set ?ops \<and>
           d = Document_init i c' m' \<and> tokenize (content d) = tokenize c'"
      by blast
  qed
  from ds ret empty new allr prov show ?thesis by blast
qed

theorem search_matches_query_tokens_witness:
  "valid_iter sorted_list_of_set \<and>
   datasets (run sorted_list_of_set SearchEngine_init [CreateDataset ''d'']) ''d'' =
     Some Dataset_init \<and>
   next_doc_id (run sorted_list_of_set SearchEngine_init [CreateDataset ''d'']) = 1 \<and>
   tokenize ''hello'' \<noteq> [] \<and>
   set (tokenize ''hello'') \<subseteq> set (tokenize ''Hello World'') \<and>
   (\<exists>rs. SearchEngine_search sorted_list_of_set
           (run sorted_list_of_set SearchEngine_init
              ([CreateDataset ''d''] @ InsertDocument ''d'' ''Hello World'' Map.empty #
               [InsertDocument ''d'' ''Other text'' Map.empty])) ''d'' ''hello'' None =
         (Inr rs, run sorted_list_of_set SearchEngine_init
              ([CreateDataset ''d''] @ InsertDocument ''d'' ''Hello World'' Map.empty #
               [InsertDocument ''d'' ''Other text'' Map.empty])) \<and>
         (\<exists>r\<in>set rs. doc_id (document r) = 1))"
proof -
  have ds: "datasets (run sorted_list_of_set SearchEngine_init [CreateDataset ''d'']) ''d'' =
      Some Dataset_init"
    by (simp add: create_dataset_def SearchEngine_init_def)
  have n: "next_doc_id (run sorted_list_of_set SearchEngine_init [CreateDataset ''d'']) = 1"
    by (simp add: SearchEngine_init_def)
  have ne: "tokenize ''hello'' \<noteq> []"
    by code_simp
  have sub: "set (tokenize ''hello'') \<subseteq> set (tokenize ''Hello World'')"
    by code_simp
  from search_matches_query_tokens
         [OF valid_iter_sorted ds, where c = "''Hello World''" and m = Map.empty
            and ?ops2.0 = "[InsertDocument ''d'' ''Other text'' Map.empty]"
            and q = "''hello''" and k = None]
  obtain rs where "SearchEngine_search sorted_list_of_set
           (run sorted_list_of_set SearchEngine_init
              ([CreateDataset ''d''] @ InsertDocument ''d'' ''Hello World'' Map.empty #
               [InsertDocument ''d'' ''Other text'' Map.empty])) ''d'' ''hello'' None =
         (Inr rs, run sorted_list_of_set SearchEngine_init
              ([CreateDataset ''d''] @ InsertDocument ''d'' ''Hello World'' Map.empty #
               [InsertDocument ''d'' ''Other text'' Map.empty]))"
    and "tokenize ''hello'' \<noteq> [] \<longrightarrow>
        ((\<exists>r\<in>set rs. doc_id (document r) =
            next_doc_id (run sorted_list_of_set SearchEngine_init [CreateDataset ''d''])) \<longleftrightarrow>
           set (tokenize ''hello'') \<subseteq> set (tokenize ''Hello World''))"
    by blast
  with valid_iter_sorted ds n ne sub show ?thesis by auto
qed

end
